theory Spec2Isabelle
  imports Complex_Main "HOL-Library.Multiset"
begin

section \<open>Data model\<close>

text \<open>
  The two scripts (Home.py and main.py) work on a pandas frame read from a CSV file. Only two
  columns matter for the metrics: \<open>current_date\<close> and \<open>total_portfolio_value\<close>.

  \<^item> A date is the day number of the parsed timestamp (the column holds dates with no time of
    day), so that \<open>(end_date - start_date).days\<close> is a difference of integers.
  \<^item> A cell of the value column is either a number or something that
    \<open>pd.to_numeric(..., errors="coerce")\<close> turns into NaN.
  \<^item> A float64 is a real number, or one of the three special values of IEEE arithmetic.
    A finite result of an operation is the exact real number: the rounding of float64, and
    the overflow of a large finite result to an infinity, are not modelled. The theorems
    about the formulas are about these exact values. Zero is unsigned and counts as \<open>+0\<close>.
\<close>

type_synonym date = int

datatype cell = Numeric real | Malformed

datatype npfloat = Fin real | PInf | NInf | NaN

datatype error = IndexError | ZeroDivisionError

text \<open>The values the metrics section of Home.py binds (lines 82--105), under their names there.\<close>

record metrics =
  total_return :: npfloat
  cagr :: npfloat
  drawdown :: "npfloat list"
  max_drawdown :: npfloat
  sharpe_ratio :: npfloat

section \<open>numpy float64 arithmetic\<close>

text \<open>
  Division follows IEEE 754: a zero divisor raises nothing, it gives an infinity or NaN.
  A quotient of finite numbers with a divisor that is not zero is the exact quotient.
\<close>

fun np_div :: "npfloat \<Rightarrow> npfloat \<Rightarrow> npfloat" where
  "np_div NaN _ = NaN"
| "np_div _ NaN = NaN"
| "np_div (Fin x) (Fin y) =
     (if y \<noteq> 0 then Fin (x / y)
      else if 0 < x then PInf else if x < 0 then NInf else NaN)"
| "np_div (Fin x) PInf = Fin 0"
| "np_div (Fin x) NInf = Fin 0"
| "np_div PInf (Fin y) = (if 0 \<le> y then PInf else NInf)"
| "np_div NInf (Fin y) = (if 0 \<le> y then NInf else PInf)"
| "np_div PInf PInf = NaN"
| "np_div PInf NInf = NaN"
| "np_div NInf PInf = NaN"
| "np_div NInf NInf = NaN"

fun np_sub :: "npfloat \<Rightarrow> npfloat \<Rightarrow> npfloat" where
  "np_sub NaN _ = NaN"
| "np_sub _ NaN = NaN"
| "np_sub (Fin x) (Fin y) = Fin (x - y)"
| "np_sub (Fin x) PInf = NInf"
| "np_sub (Fin x) NInf = PInf"
| "np_sub PInf PInf = NaN"
| "np_sub PInf _ = PInf"
| "np_sub NInf NInf = NaN"
| "np_sub NInf _ = NInf"

fun np_abs :: "npfloat \<Rightarrow> npfloat" where
  "np_abs (Fin x) = Fin \<bar>x\<bar>"
| "np_abs PInf = PInf"
| "np_abs NInf = PInf"
| "np_abs NaN = NaN"

text \<open>
  \<open>base ** e\<close> for a float64 base and a Python float exponent. A negative base with an
  exponent that is not an integer gives NaN; an odd integer exponent keeps the sign. The
  power of a positive finite base is the exact real power.
\<close>

definition odd_integer :: "real \<Rightarrow> bool" where
  "odd_integer e = (of_int \<lfloor>e\<rfloor> = e \<and> odd \<lfloor>e\<rfloor>)"

fun np_pow :: "npfloat \<Rightarrow> real \<Rightarrow> npfloat" where
  "np_pow b e =
     (if e = 0 then Fin 1
      else case b of
        NaN \<Rightarrow> NaN
      | Fin x \<Rightarrow>
          (if 0 < x then Fin (x powr e)
           else if x = 0 then (if 0 < e then Fin 0 else PInf)
           else if of_int \<lfloor>e\<rfloor> = e
             then Fin (if odd \<lfloor>e\<rfloor> then - ((- x) powr e) else (- x) powr e)
             else NaN)
      | PInf \<Rightarrow> (if 0 < e then PInf else Fin 0)
      | NInf \<Rightarrow>
          (if 0 < e then (if odd_integer e then NInf else PInf)
           else Fin 0))"

declare np_pow.simps [simp del]

text \<open>The order of the values that are not NaN: \<open>-inf < x < inf\<close>.\<close>

fun np_le :: "npfloat \<Rightarrow> npfloat \<Rightarrow> bool" where
  "np_le NInf _ = True"
| "np_le _ PInf = True"
| "np_le (Fin x) (Fin y) = (x \<le> y)"
| "np_le _ _ = False"

definition np_max :: "npfloat \<Rightarrow> npfloat \<Rightarrow> npfloat" where
  "np_max a b = (if np_le a b then b else a)"

definition np_min :: "npfloat \<Rightarrow> npfloat \<Rightarrow> npfloat" where
  "np_min a b = (if np_le a b then a else b)"

section \<open>pandas operations\<close>

definition isna :: "npfloat \<Rightarrow> bool" where
  "isna v = (v = NaN)"

text \<open>\<open>pd.to_numeric(column, errors="coerce")\<close>, cell by cell.\<close>

fun to_numeric :: "cell \<Rightarrow> npfloat" where
  "to_numeric (Numeric r) = Fin r"
| "to_numeric Malformed = NaN"

text \<open>
  \<open>sort_values(by=date_column)\<close> returns the rows in ascending order of the date. Its default
  algorithm (\<open>kind='quicksort'\<close>) is not stable: the order it gives to rows of the same date
  is not determined. So the sort is a relation: \<open>sort_values rows frame\<close> says that \<open>frame\<close>
  is a result the call may return for \<open>rows\<close>, any arrangement of the rows in which the
  dates ascend. The scripts are modelled from the sorted frame on.
\<close>

definition sort_values :: "(date \<times> 'a) list \<Rightarrow> (date \<times> 'a) list \<Rightarrow> bool" where
  "sort_values rows frame = (mset frame = mset rows \<and> sorted (map fst frame))"

text \<open>
  \<open>sort_index()\<close> is called on the result of \<open>groupby\<close> only, where no two rows share a
  date; there the ascending arrangement is unique.
\<close>

definition sort_index :: "(date \<times> 'a) list \<Rightarrow> (date \<times> 'a) list" where
  "sort_index rows = sort_key fst rows"

text \<open>
  \<open>groupby(date_column)[column].last()\<close>: one row per date, the dates in ascending order;
  the value of a date is the last one of its group that is not NaN, and NaN when the
  group has none.
\<close>

definition last_valid :: "npfloat list \<Rightarrow> npfloat" where
  "last_valid vs = (case filter (\<lambda>v. \<not> isna v) vs of [] \<Rightarrow> NaN | w # ws \<Rightarrow> last (w # ws))"

definition group_keys :: "(date \<times> 'a) list \<Rightarrow> date list" where
  "group_keys rows = sort (remdups (map fst rows))"

definition group_of :: "date \<Rightarrow> (date \<times> 'a) list \<Rightarrow> 'a list" where
  "group_of k rows = map snd (filter (\<lambda>r. fst r = k) rows)"

definition groupby_last :: "(date \<times> npfloat) list \<Rightarrow> (date \<times> npfloat) list" where
  "groupby_last rows = map (\<lambda>k. (k, last_valid (group_of k rows))) (group_keys rows)"

text \<open>
  \<open>Series.cummax()\<close>: the running maximum. A NaN entry stays NaN and does not enter the
  maximum. The accumulator is NaN until a value has been seen.
\<close>

fun cummax_from :: "npfloat \<Rightarrow> npfloat list \<Rightarrow> npfloat list" where
  "cummax_from acc [] = []"
| "cummax_from acc (v # vs) =
     (if isna v then NaN # cummax_from acc vs
      else if isna acc then v # cummax_from v vs
      else np_max acc v # cummax_from (np_max acc v) vs)"

definition cummax :: "npfloat list \<Rightarrow> npfloat list" where
  "cummax vs = cummax_from NaN vs"

text \<open>\<open>Series.min()\<close>: the least value that is not NaN; NaN when there is none.\<close>

definition series_min :: "npfloat list \<Rightarrow> npfloat" where
  "series_min vs =
     (case filter (\<lambda>v. \<not> isna v) vs of [] \<Rightarrow> NaN | w # ws \<Rightarrow> fold np_min ws w)"

section \<open>Home.py: the deduplicated series (lines 70--79)\<close>

text \<open>
  \<open>deduplicate_and_sort\<close> is the path to \<open>portfolio_values\<close>: the frame is sorted by date
  (line 71), the values are coerced (line 72), the last value of every date is kept and the
  result is sorted by date (line 79). Its argument \<open>main_df\<close> is the frame after line 71:
  for raw entries \<open>rows\<close>, any \<open>main_df\<close> with \<open>sort_values rows main_df\<close>.
\<close>

definition deduplicate_and_sort :: "(date \<times> cell) list \<Rightarrow> (date \<times> npfloat) list" where
  "deduplicate_and_sort main_df =
     sort_index (groupby_last (map (\<lambda>(d, c). (d, to_numeric c)) main_df))"

section \<open>Home.py: the metrics (lines 82--105)\<close>

text \<open>
  \<open>portfolio_values.iloc[-1]\<close> on an empty series raises IndexError; it is the first thing
  the section evaluates. Nothing else in the section raises: the divisions are float64
  divisions.
\<close>

definition years_between :: "date \<Rightarrow> date \<Rightarrow> real" where
  "years_between start_date end_date = real_of_int (end_date - start_date) / 365.25"

definition compute_metrics :: "(date \<times> npfloat) list \<Rightarrow> error + metrics" where
  "compute_metrics portfolio_values =
     (if portfolio_values = [] then Inl IndexError
      else
        let last_value = snd (last portfolio_values);
            first_value = snd (hd portfolio_values);
            total_return' = np_sub (np_div last_value first_value) (Fin 1);
            start_date = fst (hd portfolio_values);
            end_date = fst (last portfolio_values);
            years = years_between start_date end_date;
            cagr' = (if 0 < years
                     then np_sub (np_pow (np_div last_value first_value) (1 / years)) (Fin 1)
                     else Fin 0);
            running_max = cummax (map snd portfolio_values);
            drawdown' = map (\<lambda>(v, m). np_div (np_sub v m) m)
                          (zip (map snd portfolio_values) running_max);
            max_drawdown' = series_min drawdown';
            sharpe_ratio' = (if max_drawdown' \<noteq> Fin 0
                             then np_div cagr' (np_abs max_drawdown')
                             else Fin 0)
        in Inr \<lparr>total_return = total_return', cagr = cagr', drawdown = drawdown',
                 max_drawdown = max_drawdown', sharpe_ratio = sharpe_ratio'\<rparr>)"

text \<open>A series of finite values, as a \<open>ValuationSeries\<close> holds them.\<close>

definition series :: "(date \<times> real) list \<Rightarrow> (date \<times> npfloat) list" where
  "series ds = map (\<lambda>(d, r). (d, Fin r)) ds"

section \<open>main.py: the metrics (lines 15--34)\<close>

text \<open>
  main.py computes three of the metrics on the value column of the whole frame, sorted by
  date (line 19, the argument \<open>sorted_df\<close>) and coerced (line 20), with no grouping by date.
  \<open>.iloc[-1]\<close> raises IndexError on an empty frame. \<open>years\<close> is a Python float, and \<open>1 / years\<close> (line 30) is a Python division: it
  raises ZeroDivisionError when \<open>years\<close> is zero. The result is
  \<open>(total_return, cagr, max_drawdown)\<close>.
\<close>

definition main_metrics :: "(date \<times> cell) list \<Rightarrow> error + (npfloat \<times> npfloat \<times> npfloat)" where
  "main_metrics sorted_df =
     (let main_df = map (\<lambda>(d, c). (d, to_numeric c)) sorted_df;
          portfolio_value = map snd main_df
      in if main_df = [] then Inl IndexError
         else
           let total_return' = np_sub (np_div (last portfolio_value) (hd portfolio_value)) (Fin 1);
               years = years_between (fst (hd main_df)) (fst (last main_df))
           in if years = 0 then Inl ZeroDivisionError
              else
                let cagr' = np_sub (np_pow (np_div (last portfolio_value) (hd portfolio_value))
                                      (1 / years)) (Fin 1);
                    running_max = cummax portfolio_value;
                    drawdown' = map (\<lambda>(v, m). np_div (np_sub v m) m)
                                  (zip portfolio_value running_max);
                    max_drawdown' = series_min drawdown'
                in Inr (total_return', cagr', max_drawdown'))"

text \<open>The same three metrics as Home.py computes them, on the deduplicated series.\<close>

definition home_metrics :: "(date \<times> cell) list \<Rightarrow> error + (npfloat \<times> npfloat \<times> npfloat)" where
  "home_metrics sorted_df =
     (case compute_metrics (deduplicate_and_sort sorted_df) of
        Inl e \<Rightarrow> Inl e
      | Inr m \<Rightarrow> Inr (total_return m, cagr m, max_drawdown m))"

section \<open>main.py: the drawdown chart (lines 108--123)\<close>

text \<open>
  The frame is sorted by date and coerced again (lines 108--116; the argument \<open>sorted_df\<close> is
  the frame after line 116, once more an arrangement of the rows in which the dates ascend),
  reduced to the last value of every date (line 119), and the drawdown is
  \<open>value / running_max - 1\<close> (lines 122--123).
\<close>

definition main_drawdown :: "(date \<times> cell) list \<Rightarrow> npfloat list" where
  "main_drawdown sorted_df =
     (let main_df = groupby_last (map (\<lambda>(d, c). (d, to_numeric c)) sorted_df);
          running_max = cummax (map snd main_df)
      in map (\<lambda>(v, m). np_sub (np_div v m) (Fin 1)) (zip (map snd main_df) running_max))"

section \<open>The vocabulary of the specification\<close>

text \<open>
  The running maximum of \<open>values[0..i]\<close>, and a series all of whose values are strictly
  positive, in the words of the specification.
\<close>

definition running_peak :: "real list \<Rightarrow> nat \<Rightarrow> real" where
  "running_peak vs i = Max (set (take (Suc i) vs))"

definition positive :: "(date \<times> real) list \<Rightarrow> bool" where
  "positive ds = (\<forall>v \<in> set (map snd ds). 0 < v)"

section \<open>Series of finite values\<close>

lemma series_Nil [simp]: "series ds = [] \<longleftrightarrow> ds = []"
  by (simp add: series_def)

lemma hd_series: "ds \<noteq> [] \<Longrightarrow> hd (series ds) = (fst (hd ds), Fin (snd (hd ds)))"
  by (cases ds) (auto simp: series_def)

lemma last_series: "ds \<noteq> [] \<Longrightarrow> last (series ds) = (fst (last ds), Fin (snd (last ds)))"
  by (simp add: series_def last_map split: prod.splits)

lemma map_snd_series: "map snd (series ds) = map Fin (map snd ds)"
  by (induction ds) (auto simp: series_def)

lemma length_cummax_from [simp]: "length (cummax_from acc vs) = length vs"
  by (induction vs arbitrary: acc) auto

lemma np_max_Fin [simp]: "np_max (Fin a) (Fin b) = Fin (max a b)"
  by (simp add: np_max_def max_def)

lemma cummax_from_Fin:
  "i < length rs \<Longrightarrow>
   cummax_from (Fin a) (map Fin rs) ! i = Fin (Max (insert a (set (take (Suc i) rs))))"
proof (induction rs arbitrary: a i)
  case Nil
  then show ?case by simp
next
  case (Cons r rs)
  show ?case
  proof (cases i)
    case 0
    then show ?thesis by (simp add: isna_def)
  next
    case (Suc j)
    with Cons.prems have j: "j < length rs" by simp
    then have ne: "set (take (Suc j) rs) \<noteq> {}" by (cases rs) auto
    have "Max (insert (max a r) (set (take (Suc j) rs))) =
          Max (insert a (insert r (set (take (Suc j) rs))))"
      using ne by (simp add: max.assoc)
    moreover have "cummax_from (Fin a) (map Fin (r # rs)) ! i =
          cummax_from (Fin (max a r)) (map Fin rs) ! j"
      using Suc by (simp add: isna_def)
    ultimately show ?thesis
      using Cons.IH[OF j, of "max a r"] Suc by simp
  qed
qed

lemma cummax_Fin:
  assumes i: "i < length rs"
  shows "cummax (map Fin rs) ! i = Fin (Max (set (take (Suc i) rs)))"
proof (cases rs)
  case Nil
  with i show ?thesis by simp
next
  case (Cons r rs')
  show ?thesis
  proof (cases i)
    case 0
    then show ?thesis using Cons by (simp add: cummax_def isna_def)
  next
    case (Suc j)
    with i Cons have j: "j < length rs'" by simp
    show ?thesis using Cons Suc cummax_from_Fin[OF j, of r]
      by (simp add: cummax_def isna_def)
  qed
qed


lemma running_peak_ge: "i < length vs \<Longrightarrow> vs ! i \<le> running_peak vs i"
  by (simp add: running_peak_def take_Suc_conv_app_nth)

lemma running_peak_in: "i < length vs \<Longrightarrow> running_peak vs i \<in> set (take (Suc i) vs)"
  unfolding running_peak_def by (rule Max_in) (auto simp: take_Suc_conv_app_nth)

lemma running_peak_pos:
  assumes "i < length vs" "\<forall>v \<in> set vs. 0 < v"
  shows "0 < running_peak vs i"
  using running_peak_in[OF assms(1)] assms(2) by (meson in_set_takeD)

lemma filter_notna_Fin [simp]: "filter (\<lambda>v. \<not> isna v) (map Fin xs) = map Fin xs"
  by (induction xs) (auto simp: isna_def)

lemma np_min_Fin [simp]: "np_min (Fin a) (Fin b) = Fin (min a b)"
  by (simp add: np_min_def min_def)

lemma fold_np_min_Fin: "fold np_min (map Fin xs) (Fin a) = Fin (Min (insert a (set xs)))"
proof (induction xs arbitrary: a)
  case Nil
  then show ?case by simp
next
  case (Cons x xs)
  have "Min (insert (min x a) (set xs)) = Min (insert a (insert x (set xs)))"
    by (cases "xs = []") (simp_all add: min.assoc min.commute min.left_commute)
  with Cons show ?case by simp
qed

lemma series_min_Fin: "xs \<noteq> [] \<Longrightarrow> series_min (map Fin xs) = Fin (Min (set xs))"
proof -
  assume ne: "xs \<noteq> []"
  have "series_min (map Fin xs) = (case map Fin xs of [] \<Rightarrow> NaN | w # ws \<Rightarrow> fold np_min ws w)"
    by (simp add: series_min_def)
  with ne show ?thesis
    by (cases xs) (simp_all add: fold_np_min_Fin)
qed


lemma drawdown_series_Fin:
  assumes pos: "\<forall>v \<in> set vs. 0 < v"
  shows "map (\<lambda>(v, m). np_div (np_sub v m) m) (zip (map Fin vs) (cummax (map Fin vs)))
         = map (\<lambda>i. Fin (vs ! i / running_peak vs i - 1)) [0..<length vs]"
    (is "?lhs = ?rhs")
proof (rule nth_equalityI)
  show "length ?lhs = length ?rhs"
    by (simp add: cummax_def)
next
  fix i
  assume "i < length ?lhs"
  then have i: "i < length vs" by (simp add: cummax_def)
  have m: "0 < running_peak vs i" using running_peak_pos[OF i pos] .
  have c: "cummax (map Fin vs) ! i = Fin (running_peak vs i)"
    using cummax_Fin[OF i] by (simp add: running_peak_def)
  have "(vs ! i - running_peak vs i) / running_peak vs i = vs ! i / running_peak vs i - 1"
    using m by (simp add: diff_divide_distrib)
  then show "?lhs ! i = ?rhs ! i"
    using i m c by (simp add: cummax_def)
qed

lemma drawdown_of_series:
  assumes "compute_metrics (series ds) = Inr m" "positive ds"
  shows "drawdown m = map (\<lambda>i. Fin (map snd ds ! i / running_peak (map snd ds) i - 1)) [0..<length ds]"
proof -
  from assms(1) have ne: "ds \<noteq> []"
    by (auto simp: compute_metrics_def)
  from assms(2) have pos: "\<forall>v \<in> set (map snd ds). 0 < v"
    by (simp add: positive_def)
  from assms(1) ne have "drawdown m = map (\<lambda>(v, m). np_div (np_sub v m) m)
      (zip (map snd (series ds)) (cummax (map snd (series ds))))"
    by (auto simp: compute_metrics_def Let_def)
  then show ?thesis
    using drawdown_series_Fin[OF pos] by (simp add: map_snd_series)
qed

lemma max_drawdown_is_min:
  assumes "compute_metrics s = Inr m"
  shows "max_drawdown m = series_min (drawdown m)"
  using assms by (auto simp: compute_metrics_def Let_def split: if_splits)

lemma compute_metrics_total: "s \<noteq> [] \<Longrightarrow> \<exists>m. compute_metrics s = Inr m"
  by (simp add: compute_metrics_def Let_def)

lemma total_return_of_series:
  assumes "ds \<noteq> []" "0 < snd (hd ds)" "compute_metrics (series ds) = Inr m"
  shows "total_return m = Fin (snd (last ds) / snd (hd ds) - 1)"
  using assms by (auto simp: compute_metrics_def Let_def hd_series last_series)

lemma sorted_hd_le_last: "sorted xs \<Longrightarrow> xs \<noteq> [] \<Longrightarrow> hd xs \<le> last xs"
  by (cases xs) (auto simp: )

lemma cagr_of_series:
  assumes "ds \<noteq> []" "0 < snd (hd ds)" "compute_metrics (series ds) = Inr m"
  shows "cagr m =
    (if 0 < years_between (fst (hd ds)) (fst (last ds))
     then np_sub (np_pow (Fin (snd (last ds) / snd (hd ds)))
                         (1 / years_between (fst (hd ds)) (fst (last ds)))) (Fin 1)
     else Fin 0)"
  using assms by (auto simp: compute_metrics_def Let_def hd_series last_series)

lemma np_pow_nonneg: "0 \<le> x \<Longrightarrow> 0 < e \<Longrightarrow> np_pow (Fin x) e = Fin (x powr e)"
  by (auto simp: np_pow.simps)

section \<open>The sorted frame\<close>

lemma sort_values_stable: "sort_values rows (sort_key fst rows)"
  by (simp add: sort_values_def)

lemma sort_values_set: "sort_values rows frame \<Longrightarrow> set frame = set rows"
  by (auto simp: sort_values_def dest: mset_eq_setD)

lemma sort_values_length: "sort_values rows frame \<Longrightarrow> length frame = length rows"
  by (auto simp: sort_values_def dest: mset_eq_length)

lemma sort_values_Nil: "sort_values [] frame \<Longrightarrow> frame = []"
  by (simp add: sort_values_def)

lemma sort_values_dates: "sort_values rows frame \<Longrightarrow> set (map fst frame) = set (map fst rows)"
  by (simp add: sort_values_set)

lemma filter_key_distinct:
  "distinct (map f xs) \<Longrightarrow> x \<in> set xs \<Longrightarrow> filter (\<lambda>y. f y = f x) xs = [x]"
proof (induction xs)
  case Nil
  then show ?case by simp
next
  case (Cons a xs)
  show ?case
  proof (cases "a = x")
    case True
    from Cons.prems(1) have "f a \<notin> f ` set xs" by simp
    with True have "\<forall>y \<in> set xs. f y \<noteq> f x" by (auto simp: image_iff)
    then have "filter (\<lambda>y. f y = f x) xs = []"
      by (simp add: filter_empty_conv)
    with True show ?thesis by simp
  next
    case False
    with Cons.prems have "x \<in> set xs" and "f a \<noteq> f x" by auto
    with Cons show ?thesis by simp
  qed
qed

text \<open>When no two rows share a date, the sorted frame is determined.\<close>

lemma sort_values_distinct:
  assumes sv: "sort_values rows frame" and d: "distinct (map fst rows)"
  shows "frame = sort_key fst rows"
proof -
  from sv have m: "mset frame = mset rows" and s: "sorted (map fst frame)"
    by (simp_all add: sort_values_def)
  from m have "mset (map fst frame) = mset (map fst rows)" by simp
  with d have df: "distinct (map fst frame)"
    by (metis mset_eq_imp_distinct_iff)
  have "sort_key fst rows = frame"
  proof (rule properties_for_sort_key[OF m _ s])
    fix k assume k: "k \<in> set frame"
    then have k': "k \<in> set rows" using sv by (simp add: sort_values_set)
    have "filter (\<lambda>x. fst x = fst k) frame = [k]" by (rule filter_key_distinct[OF df k])
    moreover have "filter (\<lambda>x. fst x = fst k) rows = [k]" by (rule filter_key_distinct[OF d k'])
    ultimately show "filter (\<lambda>x. fst k = fst x) frame = filter (\<lambda>x. fst k = fst x) rows"
      by (simp add: eq_commute)
  qed
  then show ?thesis by simp
qed

lemma sort_values_single: "sort_values [x] frame \<Longrightarrow> frame = [x]"
  using sort_values_distinct[of "[x]" frame] by simp

lemma sort_values_group_set:
  assumes "sort_values rows frame"
  shows "set (group_of d frame) = set (group_of d rows)"
proof -
  from assms have "set frame = set rows" by (rule sort_values_set)
  then show ?thesis by (simp add: group_of_def)
qed

text \<open>A stable sort leaves the rows of every date in the order of the input.\<close>

lemma stable_sort_group: "group_of d (sort_key fst rows) = group_of d rows"
  by (simp add: group_of_def sort_key_stable)

section \<open>The deduplicated series\<close>

lemma map_fst_coerce [simp]: "map fst (map (\<lambda>(d, c). (d, to_numeric c)) rows) = map fst rows"
  by (induction rows) auto

lemma group_keys_sorted: "sorted (group_keys rows)" and group_keys_distinct: "distinct (group_keys rows)"
  and set_group_keys: "set (group_keys rows) = set (map fst rows)"
  by (simp_all add: group_keys_def)

lemma group_keys_cong:
  assumes "set (map fst rows) = set (map fst rows')"
  shows "group_keys rows = group_keys rows'"
  by (rule sorted_distinct_set_unique)
     (simp_all add: group_keys_sorted group_keys_distinct set_group_keys assms del: set_map)

lemma group_of_coerced:
  "group_of k (map (\<lambda>(d, c). (d, to_numeric c)) frame) = map to_numeric (group_of k frame)"
  by (induction frame) (auto simp: group_of_def)

lemma groupby_last_coerced:
  "groupby_last (map (\<lambda>(d, c). (d, to_numeric c)) frame) =
     map (\<lambda>k. (k, last_valid (map to_numeric (group_of k frame)))) (group_keys frame)"
proof -
  have "group_keys (map (\<lambda>(d, c). (d, to_numeric c)) frame) = group_keys frame"
    by (rule group_keys_cong) (simp only: map_fst_coerce)
  then show ?thesis
    by (simp add: groupby_last_def group_of_coerced)
qed

lemma deduplicate_and_sort_eq:
  "deduplicate_and_sort frame =
     map (\<lambda>k. (k, last_valid (map to_numeric (group_of k frame)))) (group_keys frame)"
proof -
  let ?G = "groupby_last (map (\<lambda>(d, c). (d, to_numeric c)) frame)"
  have "sorted (map fst ?G)"
    unfolding groupby_last_coerced by (simp add: comp_def group_keys_sorted)
  then have "sort_index ?G = ?G"
    unfolding sort_index_def by (rule sort_key_id_if_sorted)
  then show ?thesis
    by (simp add: deduplicate_and_sort_def groupby_last_coerced)
qed

lemma groupby_last_sorted:
  "groupby_last (map (\<lambda>(d, c). (d, to_numeric c)) frame) = deduplicate_and_sort frame"
  by (simp only: deduplicate_and_sort_eq groupby_last_coerced)

lemma map_fst_deduplicate: "map fst (deduplicate_and_sort frame) = group_keys frame"
  by (simp add: deduplicate_and_sort_eq comp_def)

lemma map_of_deduplicate:
  "map_of (deduplicate_and_sort frame) d =
     (if d \<in> set (map fst frame) then Some (last_valid (map to_numeric (group_of d frame))) else None)"
proof -
  have "map_of (map (\<lambda>k. (k, f k)) ks) d = (if d \<in> set ks then Some (f d) else None)"
    for f :: "date \<Rightarrow> npfloat" and ks
    by (induction ks) auto
  then show ?thesis
    unfolding deduplicate_and_sort_eq by (simp add: set_group_keys del: set_map)
qed

lemma last_valid_alt:
  "last_valid vs = (if filter (\<lambda>v. \<not> isna v) vs = [] then NaN
                    else last (filter (\<lambda>v. \<not> isna v) vs))"
  by (simp add: last_valid_def split: list.splits)


lemma last_valid_single [simp]: "last_valid [v] = v"
  by (simp add: last_valid_alt isna_def)

lemma to_numeric_isna [simp]: "isna (to_numeric c) \<longleftrightarrow> c = Malformed"
  by (cases c) (simp_all add: isna_def)

lemma last_valid_NaN_iff: "last_valid vs = NaN \<longleftrightarrow> (\<forall>v \<in> set vs. isna v)"
proof (cases "filter (\<lambda>v. \<not> isna v) vs = []")
  case True
  then show ?thesis by (auto simp: last_valid_alt filter_empty_conv)
next
  case False
  then have "last (filter (\<lambda>v. \<not> isna v) vs) \<in> set (filter (\<lambda>v. \<not> isna v) vs)"
    by (rule last_in_set)
  then have "\<not> isna (last (filter (\<lambda>v. \<not> isna v) vs))" by simp
  with False show ?thesis
    by (auto simp: last_valid_alt filter_empty_conv isna_def)
qed

lemma last_valid_in_set: "last_valid vs \<noteq> NaN \<Longrightarrow> last_valid vs \<in> set vs"
proof -
  assume a: "last_valid vs \<noteq> NaN"
  then have ne: "filter (\<lambda>v. \<not> isna v) vs \<noteq> []"
    by (auto simp: last_valid_alt)
  then have "last (filter (\<lambda>v. \<not> isna v) vs) \<in> set (filter (\<lambda>v. \<not> isna v) vs)"
    by (rule last_in_set)
  with ne show ?thesis by (simp add: last_valid_alt)
qed

lemma in_deduplicate:
  "(d, v) \<in> set (deduplicate_and_sort frame) \<longleftrightarrow>
     d \<in> set (map fst frame) \<and> v = last_valid (map to_numeric (group_of d frame))"
proof -
  have "(d, v) \<in> set (map (\<lambda>k. (k, g k)) ks) \<longleftrightarrow> d \<in> set ks \<and> v = g d"
    for g :: "date \<Rightarrow> npfloat" and ks
    by auto
  then show ?thesis
    by (simp only: deduplicate_and_sort_eq set_group_keys)
qed

text \<open>
  With a stable sort the value kept for a date is the last value of the date, in the order of
  the input, that coerces.
\<close>

lemma stable_sort_last_wins:
  assumes "d \<in> set (map fst rows)"
  shows "map_of (deduplicate_and_sort (sort_key fst rows)) d
    = Some (last_valid (map to_numeric (group_of d rows)))"
proof -
  from assms have "d \<in> set (map fst (sort_key fst rows))" by simp
  then show ?thesis
    by (simp add: map_of_deduplicate stable_sort_group del: set_map)
qed

section \<open>The drawdown series\<close>

text \<open>
  C3. For every non-empty series of strictly positive values the metrics are computed, the
  drawdown series has one entry per entry of the series, and at every index \<open>i\<close> the entry is
  the finite number \<open>value[i] / (running maximum of values[0..i]) - 1\<close>; that number is never
  positive, and it is zero exactly where the value is the running maximum (index 0 included).
\<close>

theorem drawdown_formula:
  assumes "ds \<noteq> []" and "positive ds"
  shows "\<exists>m. compute_metrics (series ds) = Inr m \<and> length (drawdown m) = length ds \<and>
    (\<forall>i < length ds. \<exists>x. drawdown m ! i = Fin x \<and>
        x = map snd ds ! i / running_peak (map snd ds) i - 1 \<and> x \<le> 0 \<and>
        (x = 0 \<longleftrightarrow> map snd ds ! i = running_peak (map snd ds) i))"
proof -
  from assms(1) obtain m where m: "compute_metrics (series ds) = Inr m"
    using compute_metrics_total[of "series ds"] by auto
  note dd = drawdown_of_series[OF m assms(2)]
  from assms(2) have pos: "\<forall>v \<in> set (map snd ds). 0 < v"
    by (simp add: positive_def)
  have "\<exists>x. drawdown m ! i = Fin x \<and>
        x = map snd ds ! i / running_peak (map snd ds) i - 1 \<and> x \<le> 0 \<and>
        (x = 0 \<longleftrightarrow> map snd ds ! i = running_peak (map snd ds) i)" if i: "i < length ds" for i
  proof -
    from i have i': "i < length (map snd ds)" by simp
    have p: "0 < running_peak (map snd ds) i" using running_peak_pos[OF i' pos] .
    have le: "map snd ds ! i \<le> running_peak (map snd ds) i" using running_peak_ge[OF i'] .
    have "drawdown m ! i = Fin (map snd ds ! i / running_peak (map snd ds) i - 1)"
      using dd i by simp
    moreover have "map snd ds ! i / running_peak (map snd ds) i - 1 \<le> 0"
      using p le by (simp add: divide_le_eq)
    moreover have "map snd ds ! i / running_peak (map snd ds) i - 1 = 0
        \<longleftrightarrow> map snd ds ! i = running_peak (map snd ds) i"
      using p by (simp add: field_simps)
    ultimately show ?thesis by blast
  qed
  moreover have "length (drawdown m) = length ds" using dd by simp
  ultimately show ?thesis using m by blast
qed

theorem drawdown_formula_witness:
  "[(0, 100), (181, 80), (365, 120)] \<noteq> [] \<and> positive [(0, 100), (181, 80), (365, 120)] \<and>
   (\<exists>m. compute_metrics (series [(0, 100), (181, 80), (365, 120)]) = Inr m \<and>
        length (drawdown m) = 3 \<and> drawdown m = [Fin 0, Fin (- 1 / 5), Fin 0])"
proof -
  have ne: "[(0, 100), (181, 80), (365, 120 :: real)] \<noteq> []" by simp
  have pos: "positive [(0, 100), (181, 80), (365, 120)]" by (simp add: positive_def)
  from drawdown_formula[OF ne pos] obtain m
    where m: "compute_metrics (series [(0, 100), (181, 80), (365, 120)]) = Inr m"
      and len: "length (drawdown m) = length [(0 :: date, 100 :: real), (181, 80), (365, 120)]"
    by blast
  from m have "drawdown m = [Fin 0, Fin (- 1 / 5), Fin 0]"
    by (auto simp: compute_metrics_def series_def cummax_def isna_def Let_def)
  with ne pos m len show ?thesis by simp
qed

section \<open>The maximum drawdown\<close>

text \<open>
  C4. For every non-empty series of strictly positive values the drawdown series consists of
  finite numbers and \<open>max_drawdown\<close> is the least of them. It is zero whenever no value lies
  below the running maximum at its index, and in particular for a series of one entry.
\<close>

theorem max_drawdown_minimum:
  assumes "ds \<noteq> []" and "positive ds"
  shows "\<exists>m xs. compute_metrics (series ds) = Inr m \<and> drawdown m = map Fin xs \<and>
      max_drawdown m = Fin (Min (set xs)) \<and>
      ((\<forall>i < length ds. running_peak (map snd ds) i \<le> map snd ds ! i) \<longrightarrow> max_drawdown m = Fin 0) \<and>
      (length ds = 1 \<longrightarrow> max_drawdown m = Fin 0)"
proof -
  let ?vs = "map snd ds"
  let ?xs = "map (\<lambda>i. ?vs ! i / running_peak ?vs i - 1) [0..<length ds]"
  from assms(1) obtain m where m: "compute_metrics (series ds) = Inr m"
    using compute_metrics_total[of "series ds"] by auto
  have dd: "drawdown m = map Fin ?xs"
    using drawdown_of_series[OF m assms(2)] by simp
  have xs_ne: "?xs \<noteq> []" using assms(1) by simp
  have md: "max_drawdown m = Fin (Min (set ?xs))"
    using max_drawdown_is_min[OF m] dd series_min_Fin[OF xs_ne] by simp
  from assms(2) have pos: "\<forall>v \<in> set ?vs. 0 < v"
    by (simp add: positive_def)
  have flat: "max_drawdown m = Fin 0"
    if nd: "\<forall>i < length ds. running_peak ?vs i \<le> ?vs ! i"
  proof -
    have z: "?vs ! i / running_peak ?vs i - 1 = 0" if i: "i < length ds" for i
    proof -
      from i have i': "i < length ?vs" by simp
      have "running_peak ?vs i = ?vs ! i"
        using nd i running_peak_ge[OF i'] by (simp add: antisym)
      moreover have "0 < running_peak ?vs i" using running_peak_pos[OF i' pos] .
      ultimately show ?thesis by simp
    qed
    have A: "?xs = map (\<lambda>i. 0) [0..<length ds]"
    proof (rule map_ext, rule impI)
      fix i assume "i \<in> set [0..<length ds]"
      then have "i < length ds" by simp
      then show "?vs ! i / running_peak ?vs i - 1 = 0" by (rule z)
    qed
    have B: "set (map (\<lambda>i. 0 :: real) [0..<length ds]) = {0}"
      using assms(1) by (cases ds) (simp_all add: image_constant_conv)
    have "set ?xs = {0}" by (rule trans[OF arg_cong[OF A, of set] B])
    with md show ?thesis by simp
  qed
  have single: "max_drawdown m = Fin 0" if l: "length ds = 1"
  proof (rule flat, intro allI impI)
    fix i assume "i < length ds"
    with l have "i = 0" by simp
    moreover from l obtain x where "ds = [x]" by (cases ds) auto
    ultimately show "running_peak ?vs i \<le> ?vs ! i" by (simp add: running_peak_def)
  qed
  from m dd md flat single show ?thesis by blast
qed

theorem max_drawdown_minimum_witness:
  "[(0 :: date, 100 :: real), (181, 80), (365, 120)] \<noteq> [] \<and> positive [(0, 100), (181, 80), (365, 120)] \<and>
   (\<exists>m. compute_metrics (series [(0, 100), (181, 80), (365, 120)]) = Inr m \<and>
        drawdown m = map Fin [0, - 1 / 5, 0] \<and> max_drawdown m = Fin (- 1 / 5))"
proof -
  have ne: "[(0, 100), (181, 80), (365, 120 :: real)] \<noteq> []" by simp
  have pos: "positive [(0, 100), (181, 80), (365, 120)]" by (simp add: positive_def)
  from max_drawdown_minimum[OF ne pos] obtain m xs
    where m: "compute_metrics (series [(0, 100), (181, 80), (365, 120)]) = Inr m"
      and dd: "drawdown m = map Fin xs" and md: "max_drawdown m = Fin (Min (set xs))"
    by blast
  from m have "drawdown m = map Fin [0, - 1 / 5, 0]"
    by (auto simp: compute_metrics_def series_def cummax_def isna_def Let_def)
  with dd have "map Fin xs = map Fin [0, - 1 / 5, 0]" by simp
  then have "xs = [0, - 1 / 5, 0]" by (auto simp: map_eq_Cons_conv)
  with md have "max_drawdown m = Fin (- 1 / 5)" by simp
  with ne pos m \<open>drawdown m = map Fin [0, - 1 / 5, 0]\<close> show ?thesis by blast
qed

section \<open>The total return\<close>

text \<open>
  C5. For every non-empty series whose first value is strictly positive, \<open>total_return\<close> is
  the last value divided by the first value, minus one.
\<close>

theorem total_return_formula:
  assumes "ds \<noteq> []" and "0 < snd (hd ds)"
  shows "\<exists>m. compute_metrics (series ds) = Inr m \<and>
              total_return m = Fin (snd (last ds) / snd (hd ds) - 1)"
proof -
  from assms(1) obtain m where m: "compute_metrics (series ds) = Inr m"
    using compute_metrics_total[of "series ds"] by auto
  with total_return_of_series[OF assms m] show ?thesis by blast
qed

theorem total_return_formula_witness:
  "[(0, 100), (365, 120)] \<noteq> [] \<and> 0 < snd (hd [(0 :: date, 100 :: real), (365, 120)]) \<and>
   (\<exists>m. compute_metrics (series [(0, 100), (365, 120)]) = Inr m \<and> total_return m = Fin (1 / 5))"
proof -
  have ne: "[(0 :: date, 100 :: real), (365, 120)] \<noteq> []" by simp
  have pos: "0 < snd (hd [(0 :: date, 100 :: real), (365, 120)])" by simp
  from total_return_formula[OF ne pos] ne pos show ?thesis by simp
qed

section \<open>The risk ratio\<close>

text \<open>
  C8. Whenever the metrics are computed with a finite \<open>cagr\<close> and a finite \<open>max_drawdown\<close>,
  the risk ratio (\<open>sharpe_ratio\<close> in Home.py) is \<open>cagr / abs(max_drawdown)\<close> when
  \<open>max_drawdown\<close> is not zero and zero otherwise; the quotient is taken only with a divisor
  that is not zero, so the result is a finite number.
\<close>

theorem sharpe_ratio_guarded:
  assumes "compute_metrics s = Inr m" and "cagr m = Fin c" and "max_drawdown m = Fin d"
  shows "sharpe_ratio m = Fin (if d \<noteq> 0 then c / \<bar>d\<bar> else 0)"
  using assms by (auto simp: compute_metrics_def Let_def split: if_splits)

theorem sharpe_ratio_guarded_witness:
  "\<exists>m. compute_metrics (series [(0, 100), (700, 80), (1461, 1600)]) = Inr m \<and>
       cagr m = Fin (16 powr (1 / 4) - 1) \<and> max_drawdown m = Fin (- 1 / 5) \<and>
       sharpe_ratio m = Fin ((16 powr (1 / 4) - 1) / (1 / 5))"
proof -
  obtain m where m: "compute_metrics (series [(0, 100), (700, 80), (1461, 1600)]) = Inr m"
    using compute_metrics_total[of "series [(0, 100), (700, 80), (1461, 1600)]"] by auto
  from m have c: "cagr m = Fin (16 powr (1 / 4) - 1)"
    by (auto simp: compute_metrics_def series_def years_between_def Let_def np_pow.simps)
  from m have "drawdown m = [Fin 0, Fin (- 1 / 5), Fin 0]"
    by (auto simp: compute_metrics_def series_def cummax_def isna_def Let_def)
  with max_drawdown_is_min[OF m] have d: "max_drawdown m = Fin (- 1 / 5)"
    by (simp add: series_min_def isna_def)
  from sharpe_ratio_guarded[OF m c d] have "sharpe_ratio m = Fin ((16 powr (1 / 4) - 1) / (1 / 5))"
    by simp
  with m c d show ?thesis by blast
qed

section \<open>The compound annual growth rate\<close>

text \<open>
  C2. For every series (dates ascending) with a strictly positive first value and distinct
  first and last dates, the series has at least two entries and \<open>cagr\<close> is
  \<open>(last value / first value) ** (1 / years) - 1\<close> with
  \<open>years = (last date - first date) in days / 365.25\<close>; for a last value that is not
  negative this is the real power. When \<open>years\<close> is not strictly positive, \<open>cagr\<close> is
  zero and no power is computed. This is the guarded computation of Home.py (lines 85--94).
\<close>

theorem cagr_formula:
  assumes "ds \<noteq> []" and "0 < snd (hd ds)"
  shows "\<exists>m. compute_metrics (series ds) = Inr m \<and>
    (sorted (map fst ds) \<and> fst (hd ds) \<noteq> fst (last ds) \<longrightarrow>
       2 \<le> length ds \<and>
       cagr m = np_sub (np_pow (Fin (snd (last ds) / snd (hd ds)))
                  (1 / (real_of_int (fst (last ds) - fst (hd ds)) / 365.25))) (Fin 1) \<and>
       (0 \<le> snd (last ds) \<longrightarrow>
          cagr m = Fin ((snd (last ds) / snd (hd ds))
                          powr (1 / (real_of_int (fst (last ds) - fst (hd ds)) / 365.25)) - 1))) \<and>
    (real_of_int (fst (last ds) - fst (hd ds)) / 365.25 \<le> 0 \<longrightarrow> cagr m = Fin 0)"
proof -
  from assms(1) obtain m where m: "compute_metrics (series ds) = Inr m"
    using compute_metrics_total[of "series ds"] by auto
  note c = cagr_of_series[OF assms m]
  let ?y = "real_of_int (fst (last ds) - fst (hd ds)) / 365.25"
  have y: "years_between (fst (hd ds)) (fst (last ds)) = ?y"
    by (simp add: years_between_def)
  have zero: "cagr m = Fin 0" if "?y \<le> 0"
    using c that unfolding y by simp
  have grow: "2 \<le> length ds \<and> cagr m = np_sub (np_pow (Fin (snd (last ds) / snd (hd ds))) (1 / ?y)) (Fin 1) \<and>
       (0 \<le> snd (last ds) \<longrightarrow> cagr m = Fin ((snd (last ds) / snd (hd ds)) powr (1 / ?y) - 1))"
    if s: "sorted (map fst ds)" and ne: "fst (hd ds) \<noteq> fst (last ds)"
  proof -
    have "hd (map fst ds) \<le> last (map fst ds)"
      using sorted_hd_le_last[OF s] assms(1) by simp
    then have "fst (hd ds) \<le> fst (last ds)"
      using assms(1) by (simp add: hd_map last_map)
    with ne have lt: "fst (hd ds) < fst (last ds)" by simp
    then have ypos: "0 < ?y" by simp
    have len: "2 \<le> length ds"
    proof (cases ds)
      case Nil
      with assms(1) show ?thesis by simp
    next
      case (Cons a as)
      with ne show ?thesis by (cases as) auto
    qed
    have c1: "cagr m = np_sub (np_pow (Fin (snd (last ds) / snd (hd ds))) (1 / ?y)) (Fin 1)"
      using c ypos unfolding y by simp
    have c2: "cagr m = Fin ((snd (last ds) / snd (hd ds)) powr (1 / ?y) - 1)" if "0 \<le> snd (last ds)"
    proof -
      from that assms(2) have "0 \<le> snd (last ds) / snd (hd ds)" by simp
      moreover from ypos have "0 < 1 / ?y" by simp
      ultimately have "np_pow (Fin (snd (last ds) / snd (hd ds))) (1 / ?y)
          = Fin ((snd (last ds) / snd (hd ds)) powr (1 / ?y))"
        by (rule np_pow_nonneg)
      with c1 show ?thesis by simp
    qed
    from len c1 c2 show ?thesis by blast
  qed
  from m zero grow show ?thesis by blast
qed

theorem cagr_formula_witness:
  "[(0 :: date, 100 :: real), (365, 120)] \<noteq> [] \<and> 0 < snd (hd [(0 :: date, 100 :: real), (365, 120)]) \<and>
   sorted (map fst [(0 :: date, 100 :: real), (365, 120)]) \<and>
   fst (hd [(0 :: date, 100 :: real), (365, 120)]) \<noteq> fst (last [(0 :: date, 100 :: real), (365, 120)]) \<and>
   (\<exists>m. compute_metrics (series [(0, 100), (365, 120)]) = Inr m \<and>
        cagr m = Fin ((6 / 5) powr (1461 / 1460) - 1)) \<and>
   (\<exists>m. compute_metrics (series [(7, 100)]) = Inr m \<and> cagr m = Fin 0)"
proof -
  have ne: "[(0 :: date, 100 :: real), (365, 120)] \<noteq> []" by simp
  have pos: "0 < snd (hd [(0 :: date, 100 :: real), (365, 120)])" by simp
  have ne1: "[(7 :: date, 100 :: real)] \<noteq> []" by simp
  have pos1: "0 < snd (hd [(7 :: date, 100 :: real)])" by simp
  from cagr_formula[OF ne pos] have
    "\<exists>m. compute_metrics (series [(0, 100), (365, 120)]) = Inr m \<and>
        cagr m = Fin ((6 / 5) powr (1461 / 1460) - 1)"
    by auto
  moreover from cagr_formula[OF ne1 pos1] have
    "\<exists>m. compute_metrics (series [(7, 100)]) = Inr m \<and> cagr m = Fin 0"
    by simp
  ultimately show ?thesis by simp
qed

section \<open>A series of one entry\<close>

text \<open>
  C9, as the code has it. For every series with exactly one entry of strictly positive value
  the metrics are computed, no error is raised, and \<open>total_return\<close>, \<open>cagr\<close>,
  \<open>max_drawdown\<close> and the risk ratio are the number zero, the drawdown series being
  \<open>[0.0]\<close>.
\<close>

theorem single_entry_metrics:
  assumes "0 < v"
  shows "compute_metrics (series [(d, v)]) =
    Inr \<lparr>total_return = Fin 0, cagr = Fin 0, drawdown = [Fin 0], max_drawdown = Fin 0,
         sharpe_ratio = Fin 0\<rparr>"
  using assms
  by (simp add: compute_metrics_def series_def years_between_def cummax_def isna_def
      series_min_def Let_def np_pow.simps)

theorem single_entry_metrics_witness:
  "(0 :: real) < 100 \<and> compute_metrics (series [(0, 100)]) =
    Inr \<lparr>total_return = Fin 0, cagr = Fin 0, drawdown = [Fin 0], max_drawdown = Fin 0,
         sharpe_ratio = Fin 0\<rparr>"
  using single_entry_metrics[of 100 0] by simp

text \<open>
  The result has no field that marks \<open>cagr\<close> or the risk ratio as undefined: for one entry
  they are the same zeros that a series with a true zero return over four years gets.
\<close>

theorem single_entry_zero_not_flagged:
  "compute_metrics (series [(0, 100)]) =
     Inr \<lparr>total_return = Fin 0, cagr = Fin 0, drawdown = [Fin 0], max_drawdown = Fin 0,
          sharpe_ratio = Fin 0\<rparr> \<and>
   compute_metrics (series [(0, 100), (1461, 100)]) =
     Inr \<lparr>total_return = Fin 0, cagr = Fin 0, drawdown = [Fin 0, Fin 0], max_drawdown = Fin 0,
          sharpe_ratio = Fin 0\<rparr>"
  by (simp add: compute_metrics_def series_def years_between_def cummax_def isna_def
      series_min_def Let_def np_pow.simps)

section \<open>The outcomes of the metrics computation\<close>

text \<open>
  C1, as the code has it. For every series the computation either returns all five metrics or
  raises, and it raises exactly when the series is empty; the error is IndexError. There is
  no other error: a first value that is zero or negative raises nothing.
\<close>

theorem compute_metrics_outcomes:
  "(compute_metrics s = Inl IndexError \<longleftrightarrow> s = []) \<and>
   compute_metrics s \<noteq> Inl ZeroDivisionError \<and>
   (s \<noteq> [] \<longrightarrow> (\<exists>m. compute_metrics s = Inr m))"
proof -
  have a: "compute_metrics s = Inl IndexError \<longleftrightarrow> s = []"
    by (simp add: compute_metrics_def Let_def)
  have b: "compute_metrics s \<noteq> Inl ZeroDivisionError"
    by (simp add: compute_metrics_def Let_def)
  have c: "\<exists>m. compute_metrics s = Inr m" if "s \<noteq> []"
    using that by (rule compute_metrics_total)
  from a b c show ?thesis by blast
qed

theorem compute_metrics_outcomes_witness:
  "compute_metrics [] = Inl IndexError \<and>
   [(0 :: date, Fin 0), (1461, Fin 1)] \<noteq> [] \<and>
   (\<exists>m. compute_metrics [(0, Fin 0), (1461, Fin 1)] = Inr m)"
  using compute_metrics_outcomes[of "[]"]
    compute_metrics_outcomes[of "[(0, Fin 0), (1461, Fin 1)]"]
  by simp

text \<open>
  With a first value of zero the quotient is an infinity, which reaches \<open>total_return\<close> and
  \<open>cagr\<close>; with a negative first value the fractional power is NaN. Neither raises.
\<close>

theorem zero_baseline_propagates:
  "compute_metrics [(0, Fin 0), (1461, Fin 1)] =
     Inr \<lparr>total_return = PInf, cagr = PInf, drawdown = [NaN, Fin 0], max_drawdown = Fin 0,
          sharpe_ratio = Fin 0\<rparr> \<and>
   compute_metrics [(0, Fin (- 1)), (1461, Fin 1)] =
     Inr \<lparr>total_return = Fin (- 2), cagr = NaN, drawdown = [Fin 0, Fin 0],
          max_drawdown = Fin 0, sharpe_ratio = Fin 0\<rparr>"
  by (simp add: compute_metrics_def years_between_def cummax_def isna_def np_max_def
      series_min_def np_min_def Let_def np_pow.simps odd_integer_def)

section \<open>Deduplication keeps the last entry of a date in the sorted frame\<close>




section \<open>Values that fail coercion\<close>

text \<open>
  C7, as the code has it. No input raises an error, and the empty input gives the empty
  series. For every frame that sorting the input by date may give: every date of the input
  is a date of the series; a value of the series is NaN exactly when every row of its date
  fails coercion; otherwise it is a number that a row of that date holds. So a value that
  fails coercion is never replaced by zero, and it is left out only when its date has a row
  that coerces.
\<close>

theorem coercion_failures_become_nan:
  assumes "sort_values rows frame"
  shows "deduplicate_and_sort [] = [] \<and>
   set (map fst (deduplicate_and_sort frame)) = set (map fst rows) \<and>
   (\<forall>(d, v) \<in> set (deduplicate_and_sort frame).
       (v = NaN \<longleftrightarrow> (\<forall>c \<in> set (group_of d rows). c = Malformed)) \<and>
       (v \<noteq> NaN \<longrightarrow> (\<exists>r. v = Fin r \<and> (d, Numeric r) \<in> set rows)))"
proof -
  note dates = sort_values_dates[OF assms]
  note groups = sort_values_group_set[OF assms]
  have e: "deduplicate_and_sort [] = []"
    by (simp add: deduplicate_and_sort_eq group_keys_def)
  have k: "set (map fst (deduplicate_and_sort frame)) = set (map fst rows)"
    by (simp only: map_fst_deduplicate set_group_keys dates)
  have p: "(v = NaN \<longleftrightarrow> (\<forall>c \<in> set (group_of d rows). c = Malformed)) \<and>
       (v \<noteq> NaN \<longrightarrow> (\<exists>r. v = Fin r \<and> (d, Numeric r) \<in> set rows))"
    if "(d, v) \<in> set (deduplicate_and_sort frame)" for d v
  proof -
    from that have v: "v = last_valid (map to_numeric (group_of d frame))"
      by (simp add: in_deduplicate del: set_map)
    have a: "v = NaN \<longleftrightarrow> (\<forall>c \<in> set (group_of d rows). c = Malformed)"
      unfolding v by (simp add: last_valid_NaN_iff groups)
    have b: "\<exists>r. v = Fin r \<and> (d, Numeric r) \<in> set rows" if nn: "v \<noteq> NaN"
    proof -
      from nn have "v \<in> set (map to_numeric (group_of d frame))"
        unfolding v by (rule last_valid_in_set)
      then obtain c where c: "c \<in> set (group_of d rows)" and vc: "v = to_numeric c"
        using groups by auto
      from c have "(d, c) \<in> set rows" by (auto simp: group_of_def)
      with vc nn show ?thesis by (cases c) auto
    qed
    from a b show ?thesis by blast
  qed
  from e k p show ?thesis by blast
qed

theorem coercion_failures_become_nan_witness:
  "sort_values [(2, Malformed), (1, Numeric 100), (1, Malformed)]
               [(1, Numeric 100), (1, Malformed), (2, Malformed)] \<and>
   deduplicate_and_sort [(1, Numeric 100), (1, Malformed), (2, Malformed)] = [(1, Fin 100), (2, NaN)] \<and>
   (1, Fin 100) \<in> set (deduplicate_and_sort [(1, Numeric 100), (1, Malformed), (2, Malformed)]) \<and>
   (1, Numeric 100) \<in> set [(2 :: date, Malformed), (1, Numeric 100), (1, Malformed)] \<and>
   set (group_of 2 [(2 :: date, Malformed), (1, Numeric 100), (1, Malformed)]) = {Malformed}"
proof -
  have sv: "sort_values [(2 :: date, Malformed), (1, Numeric 100), (1, Malformed)]
               [(1, Numeric 100), (1, Malformed), (2, Malformed)]"
    by (simp add: sort_values_def)
  have v: "deduplicate_and_sort [(1, Numeric 100), (1, Malformed), (2, Malformed)]
      = [(1, Fin 100), (2, NaN)]"
    by (simp add: deduplicate_and_sort_def sort_index_def groupby_last_def
        group_keys_def group_of_def last_valid_def isna_def)
  from coercion_failures_become_nan[OF sv] sv v
  show ?thesis by (simp add: group_of_def)
qed

text \<open>
  A date whose only row fails coercion stays in the series, its value NaN. The rows are in
  ascending order of the date, and no two share a date, so the sort leaves them as they are.
\<close>

theorem malformed_only_date_is_kept:
  "sort_values [(1, Numeric 100), (2, Malformed)] [(1, Numeric 100), (2, Malformed)] \<and>
   deduplicate_and_sort [(1, Numeric 100), (2, Malformed)] = [(1, Fin 100), (2, NaN)]"
  by (simp add: sort_values_def deduplicate_and_sort_def sort_index_def groupby_last_def
      group_keys_def group_of_def last_valid_def isna_def)

section \<open>The two scripts\<close>

text \<open>
  When no two rows share a date, grouping by date changes nothing: the deduplicated series of
  Home.py is the sorted, coerced frame main.py works on. With at least two rows the span of
  the dates is then positive, main.py's division \<open>1 / years\<close> is defined, and the two
  scripts compute the same \<open>total_return\<close>, \<open>cagr\<close> and \<open>max_drawdown\<close>.
\<close>

lemma deduplicate_distinct_dates:
  assumes "distinct (map fst frame)" and "sorted (map fst frame)"
  shows "deduplicate_and_sort frame = map (\<lambda>(d, c). (d, to_numeric c)) frame"
proof -
  have keys: "group_keys frame = map fst frame"
  proof (rule sorted_distinct_set_unique)
    show "sorted (group_keys frame)" by (rule group_keys_sorted)
    show "distinct (group_keys frame)" by (rule group_keys_distinct)
    show "sorted (map fst frame)" by (rule assms(2))
    show "distinct (map fst frame)" by (rule assms(1))
    show "set (group_keys frame) = set (map fst frame)" by (rule set_group_keys)
  qed
  have val: "last_valid (map to_numeric (group_of (fst r) frame)) = to_numeric (snd r)"
    if "r \<in> set frame" for r
    using filter_key_distinct[OF assms(1) that] by (simp add: group_of_def)
  have "deduplicate_and_sort frame
      = map (\<lambda>r. (fst r, last_valid (map to_numeric (group_of (fst r) frame)))) frame"
    by (simp add: deduplicate_and_sort_eq keys comp_def)
  also have "\<dots> = map (\<lambda>r. (fst r, to_numeric (snd r))) frame"
    by (rule map_ext) (simp add: val)
  finally show ?thesis
    by (simp add: case_prod_unfold)
qed

lemma sorted_distinct_hd_less_last:
  fixes xs :: "int list"
  assumes "sorted xs" "distinct xs" "2 \<le> length xs"
  shows "hd xs < last xs"
proof (cases xs)
  case Nil
  with assms(3) show ?thesis by simp
next
  case (Cons a ys)
  with assms(3) have ys: "ys \<noteq> []" by auto
  then have in_ys: "last ys \<in> set ys" by (rule last_in_set)
  with assms(1) Cons have "a \<le> last ys" by simp
  moreover from assms(2) Cons in_ys have "a \<noteq> last ys" by auto
  ultimately show ?thesis using Cons ys by simp
qed

lemma scripts_agree:
  assumes sv: "sort_values rows frame" and d: "distinct (map fst rows)"
    and two: "2 \<le> length rows"
  shows "main_metrics frame = home_metrics frame"
proof -
  let ?df = "map (\<lambda>(d, c). (d, to_numeric c)) frame"
  from sv have srt0: "sorted (map fst frame)" by (simp add: sort_values_def)
  from sv have "mset (map fst frame) = mset (map fst rows)" by (simp add: sort_values_def)
  with d have dis0: "distinct (map fst frame)" by (metis mset_eq_imp_distinct_iff)
  have dd: "deduplicate_and_sort frame = ?df"
    by (rule deduplicate_distinct_dates[OF dis0 srt0])
  have l: "length ?df = length rows" using sort_values_length[OF sv] by simp
  with two have ne: "?df \<noteq> []" by auto
  have keys: "map fst ?df = map fst frame" by (rule map_fst_coerce)
  have len: "2 \<le> length (map fst ?df)" using two l by simp
  have srt: "sorted (map fst ?df)" unfolding keys by (rule srt0)
  have dis: "distinct (map fst ?df)" unfolding keys by (rule dis0)
  have "hd (map fst ?df) < last (map fst ?df)"
    using srt dis len by (rule sorted_distinct_hd_less_last)
  then have lt: "fst (hd ?df) < fst (last ?df)"
    using ne by (simp add: hd_map last_map)
  then have y: "0 < years_between (fst (hd ?df)) (fst (last ?df))"
    by (simp add: years_between_def)
  have hl: "hd (map snd ?df) = snd (hd ?df)" "last (map snd ?df) = snd (last ?df)"
    using ne by (simp_all add: hd_map last_map)
  show ?thesis
    unfolding main_metrics_def home_metrics_def dd compute_metrics_def Let_def
    using ne y hl by simp
qed

text \<open>
  C10 at a frame of one row, which sorting leaves as it is. Home.py guards the power with
  \<open>years > 0\<close> and reports zero; main.py has no guard, and \<open>1 / years\<close> raises
  ZeroDivisionError.
\<close>

theorem single_row_scripts_differ:
  "sort_values [(0, Numeric 100)] [(0, Numeric 100)] \<and>
   main_metrics [(0, Numeric 100)] = Inl ZeroDivisionError \<and>
   home_metrics [(0, Numeric 100)] = Inr (Fin 0, Fin 0, Fin 0)"
  by (simp add: sort_values_def main_metrics_def home_metrics_def compute_metrics_def
      deduplicate_and_sort_def sort_index_def groupby_last_def group_keys_def group_of_def
      last_valid_def years_between_def cummax_def isna_def series_min_def Let_def)

text \<open>
  The drawdown of main.py's chart, \<open>value / running_max - 1\<close>, is the drawdown series of
  Home.py, \<open>(value - running_max) / running_max\<close>, whenever the deduplicated values are
  strictly positive.
\<close>

lemma main_drawdown_Fin:
  assumes pos: "\<forall>v \<in> set vs. 0 < v"
  shows "map (\<lambda>(v, m). np_sub (np_div v m) (Fin 1)) (zip (map Fin vs) (cummax (map Fin vs)))
         = map (\<lambda>i. Fin (vs ! i / running_peak vs i - 1)) [0..<length vs]"
    (is "?lhs = ?rhs")
proof (rule nth_equalityI)
  show "length ?lhs = length ?rhs"
    by (simp add: cummax_def)
next
  fix i
  assume "i < length ?lhs"
  then have i: "i < length vs" by (simp add: cummax_def)
  have m: "0 < running_peak vs i" using running_peak_pos[OF i pos] .
  have c: "cummax (map Fin vs) ! i = Fin (running_peak vs i)"
    using cummax_Fin[OF i] by (simp add: running_peak_def)
  show "?lhs ! i = ?rhs ! i"
    using i m c by (simp add: cummax_def)
qed

lemma main_drawdown_agrees:
  assumes "deduplicate_and_sort frame = series ds" and "positive ds"
    and "compute_metrics (series ds) = Inr m"
  shows "main_drawdown frame = drawdown m"
proof -
  from assms(2) have pos: "\<forall>v \<in> set (map snd ds). 0 < v"
    by (simp add: positive_def)
  have "main_drawdown frame = map (\<lambda>(v, m). np_sub (np_div v m) (Fin 1))
      (zip (map Fin (map snd ds)) (cummax (map Fin (map snd ds))))"
    by (simp add: main_drawdown_def groupby_last_sorted assms(1) map_snd_series Let_def)
  also have "\<dots> = map (\<lambda>i. Fin (map snd ds ! i / running_peak (map snd ds) i - 1))
      [0..<length (map snd ds)]"
    by (rule main_drawdown_Fin[OF pos])
  finally show ?thesis
    using drawdown_of_series[OF assms(3) assms(2)] by simp
qed

end
